theory Spec2Isabelle
  imports Main "HOL-Library.Word"
begin

section \<open>JavaScript strings\<close>

text \<open>
  A JavaScript string is a sequence of UTF-16 code units; every string operation used by
  \<^verbatim>\<open>src/JIA_ui/src/App.tsx\<close> (\<^verbatim>\<open>slice\<close>, \<^verbatim>\<open>startsWith\<close>, \<^verbatim>\<open>includes\<close>,
  \<^verbatim>\<open>indexOf\<close>, \<^verbatim>\<open>split\<close>, \<^verbatim>\<open>join\<close>, \<^verbatim>\<open>trim\<close>, and the regular expressions, which carry
  no \<^verbatim>\<open>u\<close> flag) works on code units. A string is therefore a list of 16-bit words.
\<close>

type_synonym jschar = "16 word"
type_synonym jsstring = "jschar list"

text \<open>An ASCII literal of the source, as code units.\<close>

definition js :: "string \<Rightarrow> jsstring" where
  "js s = map of_char s"

text \<open>
  The regular-expression class \<^verbatim>\<open>\s\<close>, which is also the set of code units that
  \<^verbatim>\<open>String.prototype.trim\<close> removes (WhiteSpace and LineTerminator of ECMAScript).
\<close>

definition is_space :: "jschar \<Rightarrow> bool" where
  "is_space c \<longleftrightarrow>
     c = 0x09 \<or> c = 0x0A \<or> c = 0x0B \<or> c = 0x0C \<or> c = 0x0D \<or> c = 0x20 \<or> c = 0xA0 \<or>
     c = 0x1680 \<or> (0x2000 \<le> c \<and> c \<le> 0x200A) \<or> c = 0x2028 \<or> c = 0x2029 \<or>
     c = 0x202F \<or> c = 0x205F \<or> c = 0x3000 \<or> c = 0xFEFF"

text \<open>The class \<^verbatim>\<open>\w\<close> (no \<^verbatim>\<open>i\<close> or \<^verbatim>\<open>u\<close> flag): \<^verbatim>\<open>[A-Za-z0-9_]\<close>.\<close>

definition is_word :: "jschar \<Rightarrow> bool" where
  "is_word c \<longleftrightarrow>
     (0x41 \<le> c \<and> c \<le> 0x5A) \<or> (0x61 \<le> c \<and> c \<le> 0x7A) \<or> (0x30 \<le> c \<and> c \<le> 0x39) \<or> c = 0x5F"

text \<open>\<^verbatim>\<open>s.startsWith(p)\<close>.\<close>

definition startsWith :: "jsstring \<Rightarrow> jsstring \<Rightarrow> bool" where
  "startsWith s p \<longleftrightarrow> take (length p) s = p"

text \<open>\<^verbatim>\<open>s.slice(a, b)\<close> and \<^verbatim>\<open>s.slice(a)\<close> for non-negative indices: both are clamped to the length.\<close>

definition slice :: "jsstring \<Rightarrow> nat \<Rightarrow> nat \<Rightarrow> jsstring" where
  "slice s a b = take (b - a) (drop a s)"

definition slice_from :: "jsstring \<Rightarrow> nat \<Rightarrow> jsstring" where
  "slice_from s a = drop a s"

section \<open>linkifyText\<close>

text \<open>
  \<^verbatim>\<open>type LinkPart = string | { href: string; label: string }\<close>
\<close>

datatype LinkPart = Plain jsstring | Link (href: jsstring) (label: jsstring)

text \<open>
  The regular expression \<^verbatim>\<open>/(https?:\/\/[^\s)]+)|(\bwww\.[^\s)]+)/g\<close>.

  \<open>url_char\<close> is the class \<^verbatim>\<open>[^\s)]\<close>; \<open>url_run s\<close> is the length of the greedy
  \<^verbatim>\<open>[^\s)]+\<close> at the head of \<open>s\<close> (nothing follows it in either alternative, so the
  greedy match is never given back).
\<close>

definition url_char :: "jschar \<Rightarrow> bool" where
  "url_char c \<longleftrightarrow> \<not> is_space c \<and> c \<noteq> 0x29"

definition url_run :: "jsstring \<Rightarrow> nat" where
  "url_run s = length (takeWhile url_char s)"

text \<open>
  First alternative, anchored at the head of \<open>s\<close>: \<^verbatim>\<open>http\<close>, the optional \<^verbatim>\<open>s\<close> (tried
  first, then given back), \<^verbatim>\<open>://\<close>, and at least one \<open>url_char\<close>. The result is the
  length of the match.
\<close>

definition match_http :: "jsstring \<Rightarrow> nat option" where
  "match_http s =
     (if startsWith s (js ''https://'') \<and> 0 < url_run (drop 8 s) then Some (8 + url_run (drop 8 s))
      else if startsWith s (js ''http://'') \<and> 0 < url_run (drop 7 s) then Some (7 + url_run (drop 7 s))
      else None)"

text \<open>
  The assertion \<^verbatim>\<open>\b\<close> between the code unit before the position (\<open>None\<close> at the start
  of the input) and the rest of the input: exactly one side is a word character.
\<close>

definition word_boundary :: "jschar option \<Rightarrow> jsstring \<Rightarrow> bool" where
  "word_boundary prev s \<longleftrightarrow>
     (case prev of None \<Rightarrow> False | Some c \<Rightarrow> is_word c) \<noteq>
     (case s of [] \<Rightarrow> False | c # _ \<Rightarrow> is_word c)"

text \<open>Second alternative: \<^verbatim>\<open>\bwww\.[^\s)]+\<close>.\<close>

definition match_www :: "jschar option \<Rightarrow> jsstring \<Rightarrow> nat option" where
  "match_www prev s =
     (if word_boundary prev s \<and> startsWith s (js ''www.'') \<and> 0 < url_run (drop 4 s)
      then Some (4 + url_run (drop 4 s)) else None)"

text \<open>The whole pattern tried at index \<open>i\<close> of \<open>text\<close>: the alternatives in order.\<close>

definition match_at :: "jsstring \<Rightarrow> nat \<Rightarrow> nat option" where
  "match_at text i =
     (let s = drop i text;
          prev = (if i = 0 then None else Some (text ! (i - 1)))
      in case match_http s of
           Some n \<Rightarrow> Some n
         | None \<Rightarrow> match_www prev s)"

text \<open>
  \<^verbatim>\<open>text.matchAll(urlRegex)\<close>: the matches from left to right, each as
  (\<^verbatim>\<open>match.index\<close>, \<^verbatim>\<open>match[0]\<close>). After a match the search resumes at its end (one
  further after an empty match, as the iterator does); where the pattern fails the search
  moves one code unit on. No match can start at the end of the input, since both
  alternatives consume code units.
\<close>

function matchAll_from :: "jsstring \<Rightarrow> nat \<Rightarrow> (nat \<times> jsstring) list" where
  "matchAll_from text i =
     (if length text \<le> i then []
      else (case match_at text i of
              None \<Rightarrow> matchAll_from text (Suc i)
            | Some n \<Rightarrow> (i, slice text i (i + n))
                         # matchAll_from text (if n = 0 then Suc i else i + n)))"
  by pat_completeness auto
termination
  by (relation "measure (\<lambda>(text, i). length text - i)") auto

declare matchAll_from.simps [simp del]

definition matchAll :: "jsstring \<Rightarrow> (nat \<times> jsstring) list" where
  "matchAll text = matchAll_from text 0"

text \<open>
  The body of the \<^verbatim>\<open>for\<close> loop of \<^verbatim>\<open>linkifyText\<close>, over the state
  (\<^verbatim>\<open>parts\<close>, \<^verbatim>\<open>lastIndex\<close>).
\<close>

fun linkify_loop ::
  "jsstring \<Rightarrow> (nat \<times> jsstring) list \<Rightarrow> LinkPart list \<times> nat \<Rightarrow> LinkPart list \<times> nat" where
  "linkify_loop text [] st = st"
| "linkify_loop text ((start, m) # ms) (parts, lastIndex) =
     (let parts1 = (if start > lastIndex then parts @ [Plain (slice text lastIndex start)]
                    else parts);
          href = (if startsWith m (js ''http'') then m else js ''https://'' @ m)
      in linkify_loop text ms (parts1 @ [Link href m], start + length m))"

definition linkifyText :: "jsstring \<Rightarrow> LinkPart list" where
  "linkifyText text =
     (case linkify_loop text (matchAll text) ([], 0) of
        (parts, lastIndex) \<Rightarrow>
          if lastIndex < length text then parts @ [Plain (slice_from text lastIndex)]
          else parts)"

text \<open>What a part shows: a plain part itself, a link part its label.\<close>

fun part_text :: "LinkPart \<Rightarrow> jsstring" where
  "part_text (Plain s) = s"
| "part_text (Link h l) = l"

definition shown_text :: "LinkPart list \<Rightarrow> jsstring" where
  "shown_text parts = concat (map part_text parts)"

text \<open>
  The matches of a text from index \<open>k\<close> on: in order, not overlapping, inside the text, and
  each the slice of the text at its index.
\<close>

fun matches_from :: "jsstring \<Rightarrow> nat \<Rightarrow> (nat \<times> jsstring) list \<Rightarrow> bool" where
  "matches_from text k [] = True"
| "matches_from text k ((start, m) # ms) =
     (k \<le> start \<and> start + length m \<le> length text \<and> m = slice text start (start + length m)
      \<and> matches_from text (start + length m) ms)"

section \<open>stripCliNoise\<close>

text \<open>
  \<^verbatim>\<open>raw.replace(/\r\n/g, "\n")\<close>: every carriage return followed by a line feed, from
  left to right, becomes a line feed.
\<close>

fun replace_crlf :: "jsstring \<Rightarrow> jsstring" where
  "replace_crlf [] = []"
| "replace_crlf [c] = [c]"
| "replace_crlf (c # d # cs) =
     (if c = 0x0D \<and> d = 0x0A then 0x0A # replace_crlf cs else c # replace_crlf (d # cs))"

text \<open>
  \<^verbatim>\<open>s.split(sep)\<close> for a separator of one code unit: the empty string gives one empty
  line. The result is never empty, so the first case of the inner \<open>case\<close> is not reached.
\<close>

fun split_on :: "jschar \<Rightarrow> jsstring \<Rightarrow> jsstring list" where
  "split_on sep [] = [[]]"
| "split_on sep (c # cs) =
     (if c = sep then [] # split_on sep cs
      else (case split_on sep cs of
              [] \<Rightarrow> [[c]]
            | l # ls \<Rightarrow> (c # l) # ls))"

text \<open>\<^verbatim>\<open>lines.join(sep)\<close>.\<close>

fun join :: "jschar \<Rightarrow> jsstring list \<Rightarrow> jsstring" where
  "join sep [] = []"
| "join sep [l] = l"
| "join sep (l # ls) = l @ sep # join sep ls"

text \<open>\<^verbatim>\<open>s.trim()\<close> removes the white space at both ends.\<close>

definition trimStart :: "jsstring \<Rightarrow> jsstring" where
  "trimStart s = dropWhile is_space s"

definition trimEnd :: "jsstring \<Rightarrow> jsstring" where
  "trimEnd s = rev (dropWhile is_space (rev s))"

definition trim :: "jsstring \<Rightarrow> jsstring" where
  "trim s = trimEnd (trimStart s)"

text \<open>\<^verbatim>\<open>s.includes(p)\<close>: \<open>p\<close> occurs somewhere in \<open>s\<close>.\<close>

fun includes_str :: "jsstring \<Rightarrow> jsstring \<Rightarrow> bool" where
  "includes_str [] p = (p = [])"
| "includes_str (c # cs) p = (startsWith (c # cs) p \<or> includes_str cs p)"

text \<open>
  \<^verbatim>\<open>s.indexOf(p)\<close>: the index of the first occurrence, \<open>-1\<close> when there is none.
\<close>

fun indexOf_from :: "jsstring \<Rightarrow> jsstring \<Rightarrow> nat \<Rightarrow> int" where
  "indexOf_from [] p i = (if p = [] then int i else - 1)"
| "indexOf_from (c # cs) p i =
     (if startsWith (c # cs) p then int i else indexOf_from cs p (Suc i))"

definition indexOf :: "jsstring \<Rightarrow> jsstring \<Rightarrow> int" where
  "indexOf s p = indexOf_from s p 0"

text \<open>
  The literal \<^verbatim>\<open>"Bye "\<close> followed by the waving-hand sign U+1F44B, which is the
  surrogate pair D83D DC4B in UTF-16.
\<close>

definition bye :: jsstring where
  "bye = js ''Bye '' @ [0xD83D, 0xDC4B]"

text \<open>\<^verbatim>\<open>/^=+$/.test(s)\<close> (no \<^verbatim>\<open>m\<close> flag): \<open>s\<close> is one or more \<^verbatim>\<open>=\<close> and nothing else.\<close>

definition separator :: "jsstring \<Rightarrow> bool" where
  "separator s \<longleftrightarrow> s \<noteq> [] \<and> list_all (\<lambda>c. c = 0x3D) s"

text \<open>The callback of \<^verbatim>\<open>lines.filter\<close>, with the tests in the order of the source.\<close>

definition keep_line :: "jsstring \<Rightarrow> bool" where
  "keep_line line =
     (let s = trim line in
      if startsWith s (js ''Choose mode:'') then False
      else if startsWith s (js ''Company:'') then False
      else if startsWith s (js ''Role:'') then False
      else if s = js ''JOB RESEARCH COMPLETE'' then False
      else if includes_str s (js ''JOB RESEARCH COMPLETE'') then False
      else if s = bye then False
      else if separator s then False
      else True)"

text \<open>
  \<^verbatim>\<open>stripCliNoise\<close>. Its parameter has type \<^verbatim>\<open>string\<close>, so \<^verbatim>\<open>!raw\<close> holds for the empty
  string only.
\<close>

definition stripCliNoise :: "jsstring \<Rightarrow> jsstring" where
  "stripCliNoise raw =
     (if raw = [] then []
      else
        let lines = split_on 0x0A (replace_crlf raw);
            cleaned = filter keep_line lines;
            out = trim (join 0x0A cleaned);
            idx = indexOf out (js ''RECENT JOB BRIEF'')
        in if idx \<ge> 0 then trim (slice_from out (nat idx)) else out)"

text \<open>The marker from which the brief starts.\<close>

definition brief :: jsstring where
  "brief = js ''RECENT JOB BRIEF''"

text \<open>The value of \<^verbatim>\<open>out\<close> before the search for the marker.\<close>

definition cleaned_text :: "jsstring \<Rightarrow> jsstring" where
  "cleaned_text raw = trim (join 0x0A (filter keep_line (split_on 0x0A (replace_crlf raw))))"

text \<open>Every line of a text passes the filter.\<close>

definition lines_kept :: "jsstring \<Rightarrow> bool" where
  "lines_kept s \<longleftrightarrow> (\<forall>l\<in>set (split_on 0x0A s). keep_line l)"

section \<open>The Dedup Ledger and the Time Extractor\<close>

text \<open>
  The README names the Python modules of the inbox scan (\<^verbatim>\<open>gmail_reader.py\<close>,
  \<^verbatim>\<open>interview_parser.py\<close>, \<^verbatim>\<open>calendar_push.py\<close>, \<^verbatim>\<open>storage.py\<close>); none of them is among
  the sources at hand, which hold the web front end only. The two components below are
  therefore modelled from the specification, whose sections 4.3 and 4.4 give their
  contracts. What the specification leaves to a collaborator (the scan for phrases, the
  resolution of a phrase, the answer of the calendar sink) is a parameter of the model, so
  that every statement below holds for each choice of it.
\<close>

subsection \<open>Data model\<close>

text \<open>
  Modelled from the spec: an absolute point in time (section 3), as a number of seconds on
  the UTC time line; the representation of time in the pipeline is missing.
\<close>

type_synonym instant = int

text \<open>
  Modelled from the spec: \<open>NormalizedMessage\<close> and \<open>ExtractedTime\<close> of section 3, whose
  declarations are missing.
\<close>

record NormalizedMessage =
  msg_id :: string
  msg_body :: string
  msg_subject :: string
  msg_sender :: string
  msg_received :: instant

record ExtractedTime =
  start_instant :: instant
  timezone :: string
  raw_phrase :: string

text \<open>
  Modelled from the spec: a dedup key is a stable, human-auditable string (section 6), an
  external calendar event id is a string, and a \<open>LedgerEntry\<close> (section 3) holds the ids
  of the messages mapped to its key and the event id if an event was created. Their
  declarations are missing.
\<close>

type_synonym dedup_key = string
type_synonym event_ref = string

record LedgerEntry =
  message_ids :: "string set"
  event_id :: "event_ref option"

subsection \<open>Dedup Ledger\<close>

text \<open>
  Modelled from the spec: the Dedup Ledger of section 4.4, a store from keys to entries,
  whose implementation is missing; and its \<open>lookup(key)\<close>, which gives the entry or
  nothing.
\<close>

type_synonym ledger = "dedup_key \<Rightarrow> LedgerEntry option"

definition lookup :: "ledger \<Rightarrow> dedup_key \<Rightarrow> LedgerEntry option" where
  "lookup led key = led key"

text \<open>
  Modelled from the spec: \<open>record(key, message_id, event_id | none)\<close> of section 4.4,
  whose implementation is missing: an upsert that adds the message id to the entry's set
  of message ids and sets the event id if it is newly provided; an event id that is set
  is never overwritten by a later call. Nothing deletes an entry.
\<close>

definition record_entry :: "ledger \<Rightarrow> dedup_key \<Rightarrow> string \<Rightarrow> event_ref option \<Rightarrow> ledger" where
  "record_entry led key mid ev =
     (case led key of
        None \<Rightarrow> led(key \<mapsto> \<lparr>message_ids = {mid}, event_id = ev\<rparr>)
      | Some en \<Rightarrow>
          led(key \<mapsto> \<lparr>message_ids = insert mid (message_ids en),
                        event_id = (case event_id en of Some x \<Rightarrow> Some x | None \<Rightarrow> ev)\<rparr>))"

text \<open>A sequence of \<open>record\<close> calls, in order: the lifetime of a ledger.\<close>

fun record_calls :: "ledger \<Rightarrow> (dedup_key \<times> string \<times> event_ref option) list \<Rightarrow> ledger" where
  "record_calls led [] = led"
| "record_calls led ((key, mid, ev) # calls) = record_calls (record_entry led key mid ev) calls"

text \<open>The event id the ledger associates with a key.\<close>

definition event_of :: "ledger \<Rightarrow> dedup_key \<Rightarrow> event_ref option" where
  "event_of led key = (case lookup led key of None \<Rightarrow> None | Some en \<Rightarrow> event_id en)"

text \<open>
  Modelled from the spec: the lookup-then-record sequence of the Sync Planner for a
  message that resolves to a key (section 4.5, state \<open>TimeResolved\<close>; the critical
  section of section 5), as far as the creation of events goes; the planner itself is
  missing. Without an entry for the key the planner decides \<open>CreateEvent\<close> and asks the
  calendar sink: on success it records the key with the new event id, and a sink failure
  records nothing (section 7). With an entry for the key it creates nothing (the decision
  is \<open>Skip\<close> or \<open>UpdateEvent\<close>) and the message joins the entry. An attempt is the key,
  the message id and what the sink answers if it is asked; the result is the event
  created, if any, and the ledger.
\<close>

type_synonym attempt = "dedup_key \<times> string \<times> event_ref option"

fun sync_attempt :: "ledger \<Rightarrow> attempt \<Rightarrow> event_ref option \<times> ledger" where
  "sync_attempt led (key, mid, answer) =
     (case lookup led key of
        None \<Rightarrow>
          (case answer of
             None \<Rightarrow> (None, led)
           | Some ev \<Rightarrow> (Some ev, record_entry led key mid (Some ev)))
      | Some en \<Rightarrow> (None, record_entry led key mid None))"

text \<open>
  Modelled from the spec: the attempts of a ledger's lifetime, in order, over all runs
  (the ledger is persistent and single-writer, sections 4.4 and 5): the events created,
  each with its key, and the ledger at the end.
\<close>

fun sync_attempts :: "ledger \<Rightarrow> attempt list \<Rightarrow> (dedup_key \<times> event_ref) list \<times> ledger" where
  "sync_attempts led [] = ([], led)"
| "sync_attempts led ((key, mid, answer) # rest) =
     (case sync_attempt led (key, mid, answer) of
        (created, led') \<Rightarrow>
          (case sync_attempts led' rest of
             (events, led'') \<Rightarrow>
               ((case created of None \<Rightarrow> [] | Some ev \<Rightarrow> [(key, ev)]) @ events, led'')))"

text \<open>The events created for a key.\<close>

definition created_for :: "dedup_key \<Rightarrow> (dedup_key \<times> event_ref) list \<Rightarrow> event_ref list" where
  "created_for key events = map snd (filter (\<lambda>kev. fst kev = key) events)"

subsection \<open>Time Extractor\<close>

text \<open>
  Modelled from the spec: the collaborators of the Time Extractor of section 4.3, whose
  implementation is missing: the scan for calendar-like phrases, which gives the
  candidate phrases in their order in the message, and the resolution of a phrase against
  the anchor (the received timestamp) and the default timezone, which gives an instant
  and a zone, or nothing for a phrase it cannot resolve.
\<close>

record time_parser =
  scan_phrases :: "NormalizedMessage \<Rightarrow> string list"
  resolve_phrase :: "instant \<Rightarrow> string \<Rightarrow> string \<Rightarrow> (instant \<times> string) option"

text \<open>
  Modelled from the spec: "the extractor selects the first phrase that resolves to a
  future instant relative to the received timestamp; if none resolve to the future, it
  returns none rather than guessing a past time" (section 4.3); the selection is missing.
\<close>

fun first_future ::
  "(string \<Rightarrow> (instant \<times> string) option) \<Rightarrow> instant \<Rightarrow> string list \<Rightarrow> ExtractedTime option" where
  "first_future res now [] = None"
| "first_future res now (phrase # phrases) =
     (case res phrase of
        None \<Rightarrow> first_future res now phrases
      | Some (tm, zone) \<Rightarrow>
          if now < tm
          then Some \<lparr>start_instant = tm, timezone = zone, raw_phrase = phrase\<rparr>
          else first_future res now phrases)"

text \<open>
  Modelled from the spec: the contract of the Time Extractor (section 4.3): the message
  in, an \<open>ExtractedTime\<close> or none out, with the received timestamp as the anchor and the
  configured default timezone. Its implementation is missing.
\<close>

definition extract_time :: "time_parser \<Rightarrow> string \<Rightarrow> NormalizedMessage \<Rightarrow> ExtractedTime option" where
  "extract_time tp default_zone msg =
     first_future (resolve_phrase tp (msg_received msg) default_zone) (msg_received msg)
       (scan_phrases tp msg)"

text \<open>A phrase resolves to an instant after \<open>now\<close>.\<close>

definition resolves_to_future ::
  "(string \<Rightarrow> (instant \<times> string) option) \<Rightarrow> instant \<Rightarrow> string \<Rightarrow> bool" where
  "resolves_to_future res now phrase \<longleftrightarrow>
     (case res phrase of None \<Rightarrow> False | Some (tm, zone) \<Rightarrow> now < tm)"

subsection \<open>Example messages\<close>

text \<open>
  A parser that finds the phrases \<^verbatim>\<open>yesterday\<close> and \<^verbatim>\<open>tomorrow\<close> in a body and resolves
  them a day before and a day after the anchor; an invitation for tomorrow that recalls a
  call of yesterday, and a note of thanks that mentions yesterday only.
\<close>

fun mentions :: "string \<Rightarrow> string \<Rightarrow> bool" where
  "mentions [] phrase = (phrase = [])"
| "mentions (c # cs) phrase = (take (length phrase) (c # cs) = phrase \<or> mentions cs phrase)"

definition example_parser :: time_parser where
  "example_parser =
     \<lparr>scan_phrases = (\<lambda>msg. filter (mentions (msg_body msg)) [''yesterday'', ''tomorrow'']),
      resolve_phrase =
        (\<lambda>now zone phrase.
           if phrase = ''tomorrow'' then Some (now + 86400, zone)
           else if phrase = ''yesterday'' then Some (now - 86400, zone)
           else None)\<rparr>"

definition invitation :: NormalizedMessage where
  "invitation =
     \<lparr>msg_id = ''m2'',
      msg_body = ''After the call yesterday: your technical interview is tomorrow'',
      msg_subject = ''Interview'', msg_sender = ''recruiter@acme.example'',
      msg_received = 2000\<rparr>"

definition thanks :: NormalizedMessage where
  "thanks =
     \<lparr>msg_id = ''m5'', msg_body = ''Thank you for the phone screen yesterday'',
      msg_subject = ''Thanks'', msg_sender = ''recruiter@acme.example'',
      msg_received = 5000\<rparr>"

section \<open>Properties of linkifyText\<close>

lemma url_run_le: "url_run s \<le> length s"
  by (simp add: url_run_def length_takeWhile_le)

lemma match_http_le: "match_http s = Some n \<Longrightarrow> n \<le> length s"
proof -
  assume h: "match_http s = Some n"
  have a: "url_run (drop 8 s) \<le> length s - 8" using url_run_le [of "drop 8 s"] by simp
  have b: "url_run (drop 7 s) \<le> length s - 7" using url_run_le [of "drop 7 s"] by simp
  from h a b show ?thesis
    by (auto simp: match_http_def split: if_splits)
qed

lemma match_www_le: "match_www prev s = Some n \<Longrightarrow> n \<le> length s"
proof -
  assume h: "match_www prev s = Some n"
  have a: "url_run (drop 4 s) \<le> length s - 4" using url_run_le [of "drop 4 s"] by simp
  from h a show ?thesis
    by (auto simp: match_www_def split: if_splits)
qed

lemma match_at_le: "match_at t i = Some n \<Longrightarrow> i \<le> length t \<Longrightarrow> i + n \<le> length t"
proof -
  assume h: "match_at t i = Some n" and i: "i \<le> length t"
  from h have "n \<le> length (drop i t)"
    by (auto simp: match_at_def Let_def split: option.splits dest: match_http_le match_www_le)
  with i show ?thesis by simp
qed

lemma matches_from_mono: "matches_from t k ms \<Longrightarrow> j \<le> k \<Longrightarrow> matches_from t j ms"
  by (cases ms) auto

lemma matchAll_from_ok: "matches_from t i (matchAll_from t i)"
proof (induction t i rule: matchAll_from.induct)
  case (1 t i)
  show ?case
  proof (cases "length t \<le> i")
    case True
    then show ?thesis by (simp add: matchAll_from.simps)
  next
    case False
    note inside = this
    show ?thesis
    proof (cases "match_at t i")
      case None
      with inside 1(1) have "matches_from t (Suc i) (matchAll_from t (Suc i))" by simp
      then have "matches_from t i (matchAll_from t (Suc i))"
        by (rule matches_from_mono) simp
      with inside None show ?thesis by (simp add: matchAll_from.simps [of t i])
    next
      case (Some n)
      from inside Some have le: "i + n \<le> length t" by (intro match_at_le) auto
      then have len: "length (slice t i (i + n)) = n" by (simp add: slice_def)
      let ?j = "if n = 0 then Suc i else i + n"
      from inside Some 1(2) have "matches_from t ?j (matchAll_from t ?j)" by simp
      then have "matches_from t (i + n) (matchAll_from t ?j)"
        by (rule matches_from_mono) simp
      with inside Some le len show ?thesis
        by (simp add: matchAll_from.simps [of t i])
    qed
  qed
qed

lemma take_slice: "a \<le> b \<Longrightarrow> take a s @ slice s a b = take b s"
proof -
  assume "a \<le> b"
  then have "take b s = take (a + (b - a)) s" by simp
  also have "\<dots> = take a s @ take (b - a) (drop a s)" by (rule take_add)
  finally show ?thesis by (simp add: slice_def)
qed

lemma linkify_loop_shown:
  "matches_from t k ms \<Longrightarrow> shown_text parts = take k t \<Longrightarrow>
   linkify_loop t ms (parts, k) = (parts', k') \<Longrightarrow>
   shown_text parts' = take k' t"
proof (induction ms arbitrary: parts k)
  case Nil
  then show ?case by simp
next
  case (Cons p ms)
  obtain start m where p: "p = (start, m)" by (cases p)
  from Cons.prems(1) p have k: "k \<le> start" and m: "m = slice t start (start + length m)"
    and rest: "matches_from t (start + length m) ms" by auto
  let ?parts1 = "if start > k then parts @ [Plain (slice t k start)] else parts"
  let ?href = "if startsWith m (js ''http'') then m else js ''https://'' @ m"
  have s1: "shown_text ?parts1 = take start t"
  proof (cases "start > k")
    case True
    then show ?thesis using Cons.prems(2) take_slice [of k start t]
      by (simp add: shown_text_def)
  next
    case False
    with k have "start = k" by simp
    with False Cons.prems(2) show ?thesis by simp
  qed
  have "shown_text (?parts1 @ [Link ?href m]) = take start t @ m"
    using s1 by (simp add: shown_text_def)
  also have "\<dots> = take start t @ slice t start (start + length m)" using m by simp
  also have "\<dots> = take (start + length m) t" by (rule take_slice) simp
  finally have s2: "shown_text (?parts1 @ [Link ?href m]) = take (start + length m) t" .
  from Cons.prems(3) p
  have "linkify_loop t ms (?parts1 @ [Link ?href m], start + length m) = (parts', k')"
    by (simp add: Let_def)
  with Cons.IH [OF rest s2] show ?case by simp
qed

text \<open>
  C8. Round trip of \<^verbatim>\<open>linkifyText\<close>: for every input string, the parts in order, a plain
  part as it is and a link part by its label (not its href), concatenate to exactly the
  input string.
\<close>

theorem linkifyText_roundtrip: "shown_text (linkifyText s) = s"
proof -
  obtain parts k where loop: "linkify_loop s (matchAll s) ([], 0) = (parts, k)"
    by (cases "linkify_loop s (matchAll s) ([], 0)")
  have ok: "matches_from s 0 (matchAll s)"
    unfolding matchAll_def by (rule matchAll_from_ok)
  have "shown_text [] = take 0 s" by (simp add: shown_text_def)
  with ok have shown: "shown_text parts = take k s"
    using loop by (rule linkify_loop_shown)
  show ?thesis
  proof (cases "k < length s")
    case True
    with loop shown show ?thesis
      by (simp add: linkifyText_def shown_text_def slice_from_def)
  next
    case False
    with loop shown show ?thesis
      by (simp add: linkifyText_def)
  qed
qed

text \<open>
  The model on a line with an \<^verbatim>\<open>https\<close> link that a closing parenthesis ends, a
  \<^verbatim>\<open>www\<close> link, and a \<^verbatim>\<open>www.\<close> inside a word, which is no link.
\<close>

lemma linkifyText_example:
  "linkifyText (js ''see (https://a.b/c) or www.x.org, not awww.y.z'') =
     [Plain (js ''see (''), Link (js ''https://a.b/c'') (js ''https://a.b/c''),
      Plain (js '') or ''), Link (js ''https://www.x.org,'') (js ''www.x.org,''),
      Plain (js '' not awww.y.z'')]"
  by code_simp

section \<open>Splitting and joining lines\<close>

lemma split_on_ne: "split_on sep s \<noteq> []"
  by (induction s) (auto split: list.splits)

lemma split_on_Cons_other:
  "c \<noteq> sep \<Longrightarrow> split_on sep (c # s) = (c # hd (split_on sep s)) # tl (split_on sep s)"
  using split_on_ne [of sep s] by (cases "split_on sep s") auto

lemma split_on_append_sep: "split_on sep (a @ sep # b) = split_on sep a @ split_on sep b"
proof (induction a)
  case Nil
  show ?case by simp
next
  case (Cons c a)
  show ?case
  proof (cases "c = sep")
    case True
    with Cons show ?thesis by simp
  next
    case False
    obtain l ls where a: "split_on sep a = l # ls"
      using split_on_ne [of sep a] by (cases "split_on sep a") auto
    with False Cons show ?thesis by simp
  qed
qed

lemma split_on_no_sep: "sep \<notin> set l \<Longrightarrow> split_on sep l = [l]"
  by (induction l) auto

lemma split_on_lines_no_sep: "l \<in> set (split_on sep s) \<Longrightarrow> sep \<notin> set l"
proof (induction s arbitrary: l)
  case Nil
  then show ?case by simp
next
  case (Cons c s)
  show ?case
  proof (cases "c = sep")
    case True
    with Cons show ?thesis by auto
  next
    case False
    obtain k ks where s: "split_on sep s = k # ks"
      using split_on_ne [of sep s] by (cases "split_on sep s") auto
    with False Cons.prems have "l = c # k \<or> l \<in> set ks" by simp
    then show ?thesis
    proof
      assume "l = c # k"
      moreover have "sep \<notin> set k" using Cons.IH [of k] s by simp
      ultimately show ?thesis using False by auto
    next
      assume "l \<in> set ks"
      then show ?thesis using Cons.IH [of l] s by simp
    qed
  qed
qed

lemma join_split_on: "join sep (split_on sep s) = s"
proof (induction s)
  case Nil
  show ?case by simp
next
  case (Cons c s)
  obtain k ks where s: "split_on sep s = k # ks"
    using split_on_ne [of sep s] by (cases "split_on sep s") auto
  show ?case
  proof (cases "c = sep")
    case True
    with Cons s show ?thesis by simp
  next
    case False
    with Cons s show ?thesis by (cases ks) auto
  qed
qed

lemma split_on_join:
  "ls \<noteq> [] \<Longrightarrow> \<forall>l\<in>set ls. sep \<notin> set l \<Longrightarrow> split_on sep (join sep ls) = ls"
proof (induction ls rule: join.induct)
  case (1 sep)
  then show ?case by simp
next
  case (2 sep l)
  then show ?case by (simp add: split_on_no_sep)
next
  case (3 sep l k ks)
  then show ?case by (simp add: split_on_append_sep split_on_no_sep)
qed

lemma split_on_snoc_sep: "split_on sep (s @ [sep]) = split_on sep s @ [[]]"
  using split_on_append_sep [of sep s "[]"] by simp

lemma split_on_snoc_other:
  "c \<noteq> sep \<Longrightarrow> split_on sep (s @ [c]) = butlast (split_on sep s) @ [last (split_on sep s) @ [c]]"
proof (induction s)
  case Nil
  then show ?case by simp
next
  case (Cons d s)
  obtain k ks where s: "split_on sep s = k # ks"
    using split_on_ne [of sep s] by (cases "split_on sep s") auto
  show ?case
  proof (cases "d = sep")
    case True
    with Cons s show ?thesis by simp
  next
    case False
    with Cons s show ?thesis by (cases ks) auto
  qed
qed

lemma split_on_prefix_no_sep:
  "sep \<notin> set a \<Longrightarrow> split_on sep (a @ d) = (a @ hd (split_on sep d)) # tl (split_on sep d)"
proof (induction a)
  case Nil
  then show ?case using split_on_ne [of sep d] by simp
next
  case (Cons c a)
  then have "c \<noteq> sep" by auto
  with Cons show ?case by (simp add: split_on_Cons_other)
qed

lemma trimStart_space: "is_space c \<Longrightarrow> trimStart (c # s) = trimStart s"
  by (simp add: trimStart_def)

lemma trimEnd_space: "is_space c \<Longrightarrow> trimEnd (s @ [c]) = trimEnd s"
  by (simp add: trimEnd_def)

lemma trimStart_snoc_space:
  assumes "is_space c"
  shows "trimEnd (trimStart (s @ [c])) = trimEnd (trimStart s)"
proof (cases "\<forall>x\<in>set s. is_space x")
  case True
  with assms have "trimStart (s @ [c]) = []" "trimStart s = []"
    by (simp_all add: trimStart_def)
  then show ?thesis by simp
next
  case False
  then have "trimStart (s @ [c]) = trimStart s @ [c]"
    by (auto simp: trimStart_def dropWhile_append)
  with assms show ?thesis by (simp add: trimEnd_space)
qed

lemma trim_Cons_space: "is_space c \<Longrightarrow> trim (c # s) = trim s"
  by (simp add: trim_def trimStart_space)

lemma trim_snoc_space: "is_space c \<Longrightarrow> trim (s @ [c]) = trim s"
  by (simp add: trim_def trimStart_snoc_space)

lemma keep_line_Cons_space: "is_space c \<Longrightarrow> keep_line (c # s) = keep_line s"
  by (simp add: keep_line_def trim_Cons_space)

lemma keep_line_snoc_space: "is_space c \<Longrightarrow> keep_line (s @ [c]) = keep_line s"
  by (simp add: keep_line_def trim_snoc_space)

lemma trim_Nil: "trim [] = []"
  by (simp add: trim_def trimStart_def trimEnd_def)

lemma keep_line_Nil: "keep_line []"
  by (simp add: keep_line_def trim_Nil startsWith_def js_def bye_def separator_def)

section \<open>Trimming and the line filter\<close>

lemma hd_tl_split_on: "hd (split_on sep s) # tl (split_on sep s) = split_on sep s"
  using split_on_ne [of sep s] by simp

lemma lines_kept_drop_leading:
  "\<forall>c\<in>set p. is_space c \<Longrightarrow> lines_kept (p @ s) \<Longrightarrow> lines_kept s"
proof (induction p)
  case Nil
  then show ?case by simp
next
  case (Cons c p)
  have "lines_kept (p @ s)"
  proof (cases "c = 0x0A")
    case True
    with Cons.prems(2) show ?thesis by (simp add: lines_kept_def)
  next
    case False
    let ?L = "split_on 0x0A (p @ s)"
    from False have "split_on 0x0A (c # p @ s) = (c # hd ?L) # tl ?L"
      by (rule split_on_Cons_other)
    with Cons.prems(2) have "keep_line (c # hd ?L)" and tl: "\<forall>l\<in>set (tl ?L). keep_line l"
      by (simp_all add: lines_kept_def del: split_on.simps)
    with Cons.prems(1) have "keep_line (hd ?L)" by (simp add: keep_line_Cons_space)
    with tl have "\<forall>l\<in>set (hd ?L # tl ?L). keep_line l" by simp
    then show ?thesis unfolding lines_kept_def hd_tl_split_on .
  qed
  with Cons show ?case by simp
qed

lemma lines_kept_drop_trailing:
  "\<forall>c\<in>set q. is_space c \<Longrightarrow> lines_kept (s @ q) \<Longrightarrow> lines_kept s"
proof (induction q rule: rev_induct)
  case Nil
  then show ?case by simp
next
  case (snoc c q)
  have "lines_kept (s @ q)"
  proof (cases "c = 0x0A")
    case True
    with snoc.prems(2) show ?thesis
      using split_on_snoc_sep [of "0x0A" "s @ q"] by (simp add: lines_kept_def)
  next
    case False
    let ?L = "split_on 0x0A (s @ q)"
    have L: "butlast ?L @ [last ?L] = ?L" using split_on_ne [of "0x0A" "s @ q"] by simp
    from False have "split_on 0x0A ((s @ q) @ [c]) = butlast ?L @ [last ?L @ [c]]"
      by (rule split_on_snoc_other)
    with snoc.prems(2) have "keep_line (last ?L @ [c])"
      and bl: "\<forall>l\<in>set (butlast ?L). keep_line l"
      by (simp_all add: lines_kept_def)
    with snoc.prems(1) have "keep_line (last ?L)" by (simp add: keep_line_snoc_space)
    with bl have "\<forall>l\<in>set (butlast ?L @ [last ?L]). keep_line l" by simp
    then show ?thesis unfolding lines_kept_def L .
  qed
  with snoc show ?case by simp
qed

lemma trim_decomp:
  "\<exists>p q. s = p @ trim s @ q \<and> (\<forall>c\<in>set p. is_space c) \<and> (\<forall>c\<in>set q. is_space c)"
proof -
  let ?u = "dropWhile is_space s"
  let ?p = "takeWhile is_space s"
  let ?q = "rev (takeWhile is_space (rev ?u))"
  have "rev (dropWhile is_space (rev ?u)) @ ?q
        = rev (takeWhile is_space (rev ?u) @ dropWhile is_space (rev ?u))"
    by (simp only: rev_append)
  also have "\<dots> = rev (rev ?u)" by (simp only: takeWhile_dropWhile_id)
  finally have u: "?u = trim s @ ?q" by (simp add: trim_def trimEnd_def trimStart_def)
  have "s = ?p @ ?u" by simp
  with u have "s = ?p @ trim s @ ?q" by simp
  moreover have "\<forall>c\<in>set ?p. is_space c" by (auto dest: set_takeWhileD)
  moreover have "\<forall>c\<in>set ?q. is_space c" by (auto dest: set_takeWhileD)
  ultimately show ?thesis by blast
qed

lemma lines_kept_trim: "lines_kept s \<Longrightarrow> lines_kept (trim s)"
proof -
  assume kept: "lines_kept s"
  obtain p q where s: "s = p @ trim s @ q" and p: "\<forall>c\<in>set p. is_space c"
    and q: "\<forall>c\<in>set q. is_space c"
    using trim_decomp [of s] by blast
  from kept s have "lines_kept (p @ trim s @ q)" by simp
  with p have "lines_kept (trim s @ q)" by (rule lines_kept_drop_leading)
  with q show ?thesis by (rule lines_kept_drop_trailing)
qed

lemma startsWith_append: "startsWith s p \<Longrightarrow> \<exists>r. s = p @ r"
proof -
  assume "startsWith s p"
  then have "take (length p) s = p" by (simp add: startsWith_def)
  then have "s = p @ drop (length p) s" by (metis append_take_drop_id)
  then show ?thesis ..
qed

lemma startsWith_prefix: "startsWith (p @ r) p"
  by (simp add: startsWith_def)

lemma includes_str_append: "includes_str s p \<Longrightarrow> includes_str (a @ s) p"
  by (induction a) auto

lemma trimStart_append_nonspace:
  assumes "m \<noteq> []" "\<not> is_space (hd m)"
  shows "trimStart (a @ m) = trimStart a @ m"
proof -
  from assms have m: "dropWhile is_space m = m" by (cases m) auto
  show ?thesis
  proof (cases "\<forall>x\<in>set a. is_space x")
    case True
    then have "dropWhile is_space a = []" by simp
    with True m show ?thesis by (simp add: trimStart_def dropWhile_append)
  next
    case False
    then show ?thesis by (auto simp: trimStart_def dropWhile_append)
  qed
qed

lemma trimEnd_append_nonspace:
  assumes "x \<noteq> []" "\<not> is_space (last x)"
  shows "trimEnd (x @ r) = x @ trimEnd r"
proof -
  from assms obtain y c where x: "x = y @ [c]" and c: "\<not> is_space c"
    by (cases x rule: rev_cases) auto
  then have rx: "dropWhile is_space (rev x) = rev x" by simp
  show ?thesis
  proof (cases "\<forall>z\<in>set r. is_space z")
    case True
    then have "dropWhile is_space (rev r) = []" by simp
    with True rx show ?thesis by (simp add: trimEnd_def dropWhile_append)
  next
    case False
    then show ?thesis by (auto simp: trimEnd_def dropWhile_append)
  qed
qed

lemma keep_line_iff:
  "keep_line l \<longleftrightarrow>
     \<not> startsWith (trim l) (js ''Choose mode:'') \<and>
     \<not> startsWith (trim l) (js ''Company:'') \<and>
     \<not> startsWith (trim l) (js ''Role:'') \<and>
     trim l \<noteq> js ''JOB RESEARCH COMPLETE'' \<and>
     \<not> includes_str (trim l) (js ''JOB RESEARCH COMPLETE'') \<and>
     trim l \<noteq> bye \<and>
     \<not> separator (trim l)"
  by (simp add: keep_line_def Let_def)

lemma brief_facts:
  "brief \<noteq> []" "\<not> is_space (hd brief)" "\<not> is_space (last brief)" "0x0A \<notin> set brief"
  by (simp_all add: brief_def js_def is_space_def)

lemma brief_not_noise:
  "\<not> startsWith (brief @ t) (js ''Choose mode:'')"
  "\<not> startsWith (brief @ t) (js ''Company:'')"
  "\<not> startsWith (brief @ t) (js ''Role:'')"
  "brief @ t \<noteq> js ''JOB RESEARCH COMPLETE''"
  "brief @ t \<noteq> bye"
  "\<not> separator (brief @ t)"
  by (simp_all add: brief_def js_def startsWith_def bye_def separator_def)

lemma trim_brief: "trim (a @ brief @ r) = trimStart a @ brief @ trimEnd r"
proof -
  have "brief @ r \<noteq> []" "\<not> is_space (hd (brief @ r))" using brief_facts by auto
  then have "trimStart (a @ brief @ r) = trimStart a @ brief @ r"
    by (rule trimStart_append_nonspace)
  moreover have "trimEnd ((trimStart a @ brief) @ r) = (trimStart a @ brief) @ trimEnd r"
    using brief_facts by (intro trimEnd_append_nonspace) auto
  ultimately show ?thesis by (simp add: trim_def)
qed

lemma trim_brief0: "trim (brief @ r) = brief @ trimEnd r"
  using trim_brief [of "[]" r] by (simp add: trimStart_def)

lemma keep_line_from_brief:
  assumes "startsWith m brief" "keep_line (a @ m)"
  shows "keep_line m"
proof -
  from assms(1) obtain r where m: "m = brief @ r" using startsWith_append by blast
  have t1: "trim (a @ m) = trimStart a @ trim m" and t2: "trim m = brief @ trimEnd r"
    using m by (simp_all add: trim_brief trim_brief0)
  from assms(2) have "\<not> includes_str (trim (a @ m)) (js ''JOB RESEARCH COMPLETE'')"
    by (simp add: keep_line_iff)
  with t1 have "\<not> includes_str (trim m) (js ''JOB RESEARCH COMPLETE'')"
    using includes_str_append by auto
  with t2 show ?thesis
    by (simp add: keep_line_iff brief_not_noise)
qed

lemma hd_split_on_brief:
  assumes "startsWith d brief"
  shows "startsWith (hd (split_on 0x0A d)) brief"
proof -
  from assms obtain r where d: "d = brief @ r" using startsWith_append by blast
  have "split_on 0x0A (brief @ r) = (brief @ hd (split_on 0x0A r)) # tl (split_on 0x0A r)"
    using brief_facts(4) by (rule split_on_prefix_no_sep)
  with d show ?thesis by (simp add: startsWith_prefix)
qed

lemma lines_kept_from_brief_line:
  assumes "0x0A \<notin> set a" "startsWith d brief" "lines_kept (a @ d)"
  shows "lines_kept d"
proof -
  let ?L = "split_on 0x0A d"
  from assms(1) have "split_on 0x0A (a @ d) = (a @ hd ?L) # tl ?L"
    by (rule split_on_prefix_no_sep)
  with assms(3) have hd: "keep_line (a @ hd ?L)" and tl: "\<forall>l\<in>set (tl ?L). keep_line l"
    by (simp_all add: lines_kept_def)
  from hd_split_on_brief [OF assms(2)] hd have "keep_line (hd ?L)"
    by (rule keep_line_from_brief)
  with tl have "\<forall>l\<in>set (hd ?L # tl ?L). keep_line l" by simp
  then show ?thesis unfolding lines_kept_def hd_tl_split_on .
qed

lemma lines_kept_from_brief:
  assumes "startsWith d brief" "lines_kept (a @ d)"
  shows "lines_kept d"
proof (cases "0x0A \<in> set a")
  case False
  then show ?thesis using assms by (rule lines_kept_from_brief_line)
next
  case True
  then obtain a1 a2 where a: "a = a1 @ 0x0A # a2" and a2: "0x0A \<notin> set a2"
    using split_list_last [of "0x0A" a] by blast
  have "split_on 0x0A (a1 @ 0x0A # (a2 @ d)) = split_on 0x0A a1 @ split_on 0x0A (a2 @ d)"
    by (rule split_on_append_sep)
  with assms(2) a have "lines_kept (a2 @ d)" by (simp add: lines_kept_def)
  with a2 assms(1) show ?thesis by (rule lines_kept_from_brief_line)
qed

lemma indexOf_from_found:
  "0 \<le> indexOf_from s p i \<Longrightarrow>
     int i \<le> indexOf_from s p i \<and> startsWith (drop (nat (indexOf_from s p i - int i)) s) p"
proof (induction s arbitrary: i)
  case Nil
  then show ?case by (simp add: startsWith_def split: if_splits)
next
  case (Cons c s)
  show ?case
  proof (cases "startsWith (c # s) p")
    case True
    then show ?thesis by simp
  next
    case False
    with Cons.prems have "0 \<le> indexOf_from s p (Suc i)" by simp
    from Cons.IH [OF this] have le: "int (Suc i) \<le> indexOf_from s p (Suc i)"
      and sw: "startsWith (drop (nat (indexOf_from s p (Suc i) - int (Suc i))) s) p" by auto
    from le have "nat (indexOf_from s p (Suc i) - int i) = Suc (nat (indexOf_from s p (Suc i) - int (Suc i)))"
      by simp
    with False le sw show ?thesis by simp
  qed
qed

lemma indexOf_found: "0 \<le> indexOf s p \<Longrightarrow> startsWith (drop (nat (indexOf s p)) s) p"
  using indexOf_from_found [of s p 0] by (simp add: indexOf_def)

lemma indexOf_startsWith: "startsWith s p \<Longrightarrow> indexOf s p = 0"
  by (cases s) (auto simp: indexOf_def startsWith_def)

section \<open>Properties of stripCliNoise\<close>

text \<open>
  The model on a transcript of the command line: prompts, banner and separators go, the
  blank line inside the brief stays, and the text before the marker is cut.
\<close>

lemma stripCliNoise_example:
  "stripCliNoise
     (js ''Choose mode: 1\<newline>Company: Meta\<newline>  Role: SWE \<newline>====\<newline>header\<newline>RECENT JOB BRIEF\<newline>\<newline>news  \<newline>== JOB RESEARCH COMPLETE ==\<newline>'')
     = js ''RECENT JOB BRIEF\<newline>\<newline>news''"
  by code_simp

lemma lines_kept_Nil: "lines_kept []"
  by (simp add: lines_kept_def keep_line_Nil)

lemma lines_kept_join_filter:
  assumes "\<forall>l\<in>set ls. 0x0A \<notin> set l"
  shows "lines_kept (join 0x0A (filter keep_line ls))"
proof (cases "filter keep_line ls = []")
  case True
  then show ?thesis by (simp add: lines_kept_Nil)
next
  case False
  moreover from assms have "\<forall>l\<in>set (filter keep_line ls). 0x0A \<notin> set l" by simp
  ultimately have "split_on 0x0A (join 0x0A (filter keep_line ls)) = filter keep_line ls"
    by (rule split_on_join)
  then show ?thesis by (simp add: lines_kept_def)
qed

lemma stripCliNoise_unfold:
  "stripCliNoise raw =
     (if raw = [] then []
      else if 0 \<le> indexOf (cleaned_text raw) brief
           then trim (drop (nat (indexOf (cleaned_text raw) brief)) (cleaned_text raw))
           else cleaned_text raw)"
  by (simp add: stripCliNoise_def cleaned_text_def brief_def Let_def slice_from_def)

lemma lines_kept_cleaned_text: "lines_kept (cleaned_text raw)"
  unfolding cleaned_text_def
  by (intro lines_kept_trim lines_kept_join_filter ballI) (rule split_on_lines_no_sep)

lemma lines_kept_stripCliNoise: "lines_kept (stripCliNoise raw)"
proof -
  let ?out = "cleaned_text raw"
  let ?idx = "indexOf ?out brief"
  have "lines_kept (trim (drop (nat ?idx) ?out))" if found: "0 \<le> ?idx"
  proof -
    from found have "startsWith (drop (nat ?idx) ?out) brief" by (rule indexOf_found)
    moreover have "lines_kept (take (nat ?idx) ?out @ drop (nat ?idx) ?out)"
      by (simp add: lines_kept_cleaned_text)
    ultimately have "lines_kept (drop (nat ?idx) ?out)" by (rule lines_kept_from_brief)
    then show ?thesis by (rule lines_kept_trim)
  qed
  then show ?thesis
    by (simp add: stripCliNoise_unfold lines_kept_Nil lines_kept_cleaned_text)
qed

lemma trim_ends:
  assumes "trim s \<noteq> []"
  shows "\<not> is_space (hd (trim s))" and "\<not> is_space (last (trim s))"
proof -
  let ?u = "dropWhile is_space s"
  let ?w = "dropWhile is_space (rev ?u)"
  have t: "trim s = rev ?w" by (simp add: trim_def trimEnd_def trimStart_def)
  with assms have w: "?w \<noteq> []" by simp
  then have "\<not> is_space (hd ?w)" by (rule hd_dropWhile)
  with w t show "\<not> is_space (last (trim s))" by (simp add: last_rev)
  have u: "?u \<noteq> []"
  proof
    assume e: "?u = []"
    have "?w = []" unfolding e by simp
    with w show False ..
  qed
  then have hu: "\<not> is_space (hd ?u)" by (rule hd_dropWhile)
  have "rev ?u = takeWhile is_space (rev ?u) @ ?w" by simp
  then have "rev (rev ?u) = rev (takeWhile is_space (rev ?u) @ ?w)" by (rule arg_cong)
  then have "?u = trim s @ rev (takeWhile is_space (rev ?u))" using t by (simp only: rev_rev_ident rev_append)
  with assms have "hd ?u = hd (trim s)" by (metis hd_append2)
  with hu show "\<not> is_space (hd (trim s))" by simp
qed

lemma trim_id:
  assumes "s = [] \<or> (\<not> is_space (hd s) \<and> \<not> is_space (last s))"
  shows "trim s = s"
proof (cases "s = []")
  case True
  then show ?thesis by (simp add: trim_Nil)
next
  case False
  with assms have h: "\<not> is_space (hd s)" and l: "\<not> is_space (last s)" by auto
  from False h have "trimStart s = s" by (cases s) (auto simp: trimStart_def)
  moreover from False l have "trimEnd (s @ []) = s @ trimEnd []"
    by (rule trimEnd_append_nonspace)
  ultimately show ?thesis by (simp add: trim_def trimEnd_def)
qed

lemma trim_trim: "trim (trim s) = trim s"
  by (rule trim_id) (use trim_ends [of s] in blast)

lemma stripCliNoise_trimmed: "trim (stripCliNoise raw) = stripCliNoise raw"
  by (simp add: stripCliNoise_unfold trim_Nil trim_trim cleaned_text_def)

text \<open>
  C10. Postcondition of \<^verbatim>\<open>stripCliNoise\<close>: for every input, no line of the output, after
  trimming, starts with \<^verbatim>\<open>Choose mode:\<close>, \<^verbatim>\<open>Company:\<close> or \<^verbatim>\<open>Role:\<close>, equals the
  farewell line, contains \<^verbatim>\<open>JOB RESEARCH COMPLETE\<close>, or consists solely of \<^verbatim>\<open>=\<close>
  characters; and a non-empty output neither starts nor ends with white space.
\<close>

theorem stripCliNoise_no_noise:
  "(\<forall>line\<in>set (split_on 0x0A (stripCliNoise raw)).
      \<not> startsWith (trim line) (js ''Choose mode:'') \<and>
      \<not> startsWith (trim line) (js ''Company:'') \<and>
      \<not> startsWith (trim line) (js ''Role:'') \<and>
      trim line \<noteq> bye \<and>
      \<not> includes_str (trim line) (js ''JOB RESEARCH COMPLETE'') \<and>
      \<not> separator (trim line)) \<and>
   (stripCliNoise raw \<noteq> [] \<longrightarrow>
      \<not> is_space (hd (stripCliNoise raw)) \<and> \<not> is_space (last (stripCliNoise raw)))"
proof (intro conjI ballI impI)
  fix line
  assume "line \<in> set (split_on 0x0A (stripCliNoise raw))"
  with lines_kept_stripCliNoise [of raw] have k: "keep_line line"
    by (simp add: lines_kept_def)
  from k show "\<not> startsWith (trim line) (js ''Choose mode:'')" by (simp add: keep_line_iff)
  from k show "\<not> startsWith (trim line) (js ''Company:'')" by (simp add: keep_line_iff)
  from k show "\<not> startsWith (trim line) (js ''Role:'')" by (simp add: keep_line_iff)
  from k show "trim line \<noteq> bye" by (simp add: keep_line_iff)
  from k show "\<not> includes_str (trim line) (js ''JOB RESEARCH COMPLETE'')"
    by (simp add: keep_line_iff)
  from k show "\<not> separator (trim line)" by (simp add: keep_line_iff)
next
  assume ne: "stripCliNoise raw \<noteq> []"
  then have "trim (stripCliNoise raw) \<noteq> []" by (simp add: stripCliNoise_trimmed)
  then have "\<not> is_space (hd (trim (stripCliNoise raw)))"
    and "\<not> is_space (last (trim (stripCliNoise raw)))"
    by (rule trim_ends)+
  then show "\<not> is_space (hd (stripCliNoise raw))" and "\<not> is_space (last (stripCliNoise raw))"
    by (simp_all add: stripCliNoise_trimmed)
qed

text \<open>
  The postcondition at the transcript \<^verbatim>\<open>"Company: x\nok\n=="\<close>, whose output is the one
  line \<^verbatim>\<open>ok\<close>.
\<close>

theorem stripCliNoise_no_noise_witness:
  "js ''ok'' \<in> set (split_on 0x0A (stripCliNoise (js ''Company: x\<newline>ok\<newline>==''))) \<and>
   stripCliNoise (js ''Company: x\<newline>ok\<newline>=='') \<noteq> [] \<and>
   \<not> startsWith (trim (js ''ok'')) (js ''Choose mode:'') \<and>
   \<not> startsWith (trim (js ''ok'')) (js ''Company:'') \<and>
   \<not> startsWith (trim (js ''ok'')) (js ''Role:'') \<and>
   trim (js ''ok'') \<noteq> bye \<and>
   \<not> includes_str (trim (js ''ok'')) (js ''JOB RESEARCH COMPLETE'') \<and>
   \<not> separator (trim (js ''ok'')) \<and>
   \<not> is_space (hd (stripCliNoise (js ''Company: x\<newline>ok\<newline>==''))) \<and>
   \<not> is_space (last (stripCliNoise (js ''Company: x\<newline>ok\<newline>=='')))"
proof -
  let ?raw = "js ''Company: x\<newline>ok\<newline>==''"
  have out: "stripCliNoise ?raw = js ''ok''" by code_simp
  have mem: "js ''ok'' \<in> set (split_on 0x0A (stripCliNoise ?raw))"
    unfolding out by code_simp
  have ne: "stripCliNoise ?raw \<noteq> []"
    unfolding out by code_simp
  from stripCliNoise_no_noise [of ?raw] mem ne show ?thesis by blast
qed

lemma replace_crlf_id: "\<not> includes_str s [0x0D, 0x0A] \<Longrightarrow> replace_crlf s = s"
  by (induction s rule: replace_crlf.induct) (auto simp: startsWith_def)

lemma indexOf_brief_Nil: "indexOf [] brief < 0"
  by (simp add: indexOf_def brief_def js_def)

lemma stripCliNoise_brief:
  assumes "0 \<le> indexOf (stripCliNoise s) brief"
  shows "startsWith (stripCliNoise s) brief"
proof -
  let ?out = "cleaned_text s"
  let ?idx = "indexOf ?out brief"
  from assms indexOf_brief_Nil have ne: "s \<noteq> []"
    by (auto simp: stripCliNoise_unfold)
  show ?thesis
  proof (cases "0 \<le> ?idx")
    case True
    then have "startsWith (drop (nat ?idx) ?out) brief" by (rule indexOf_found)
    then obtain r where "drop (nat ?idx) ?out = brief @ r" using startsWith_append by blast
    then have "trim (drop (nat ?idx) ?out) = brief @ trimEnd r" by (simp add: trim_brief0)
    with ne True show ?thesis by (simp add: stripCliNoise_unfold startsWith_prefix)
  next
    case False
    with ne have "stripCliNoise s = ?out" by (simp add: stripCliNoise_unfold)
    with assms False show ?thesis by simp
  qed
qed

lemma cleaned_text_fixed:
  assumes "\<not> includes_str s [0x0D, 0x0A]" "lines_kept s" "trim s = s"
  shows "cleaned_text s = s"
proof -
  from assms(1) have "replace_crlf s = s" by (rule replace_crlf_id)
  moreover from assms(2) have "filter keep_line (split_on 0x0A s) = split_on 0x0A s"
    by (simp add: lines_kept_def)
  ultimately show ?thesis using assms(3)
    by (simp add: cleaned_text_def join_split_on)
qed

lemma stripCliNoise_again:
  assumes "\<not> includes_str (stripCliNoise s) [0x0D, 0x0A]"
  shows "stripCliNoise (stripCliNoise s) = stripCliNoise s"
proof -
  let ?o = "stripCliNoise s"
  have c: "cleaned_text ?o = ?o"
    using assms lines_kept_stripCliNoise stripCliNoise_trimmed by (rule cleaned_text_fixed)
  show ?thesis
  proof (cases "0 \<le> indexOf ?o brief")
    case True
    then have "startsWith ?o brief" by (rule stripCliNoise_brief)
    then have "indexOf ?o brief = 0" by (rule indexOf_startsWith)
    then show ?thesis
      using c stripCliNoise_unfold [of ?o] by (simp add: stripCliNoise_trimmed)
  next
    case False
    then show ?thesis using c stripCliNoise_unfold [of ?o] by simp
  qed
qed

lemma length_trim_le: "length (trim s) \<le> length s"
proof -
  have "length (trim s) \<le> length (dropWhile is_space s)"
    unfolding trim_def trimEnd_def trimStart_def
    using length_dropWhile_le [of is_space "rev (dropWhile is_space s)"] by simp
  also have "\<dots> \<le> length s" by (rule length_dropWhile_le)
  finally show ?thesis .
qed

lemma length_join: "length (join sep ls) = sum_list (map length ls) + (length ls - 1)"
  by (induction sep ls rule: join.induct) auto

lemma length_join_filter_le: "length (join sep (filter P ls)) \<le> length (join sep ls)"
proof -
  have "sum_list (map length (filter P ls)) \<le> sum_list (map length ls)"
    by (rule sum_list_filter_le_nat)
  moreover have "length (filter P ls) - 1 \<le> length ls - 1"
    using length_filter_le [of P ls] by (rule diff_le_mono)
  ultimately show ?thesis by (simp add: length_join)
qed

lemma length_cleaned_text_le: "length (cleaned_text s) \<le> length (replace_crlf s)"
proof -
  let ?r = "replace_crlf s"
  have "length (cleaned_text s) \<le> length (join 0x0A (filter keep_line (split_on 0x0A ?r)))"
    unfolding cleaned_text_def by (rule length_trim_le)
  also have "\<dots> \<le> length (join 0x0A (split_on 0x0A ?r))" by (rule length_join_filter_le)
  finally show ?thesis by (simp add: join_split_on)
qed

lemma length_stripCliNoise_le: "length (stripCliNoise s) \<le> length (replace_crlf s)"
proof -
  let ?out = "cleaned_text s"
  have "length (trim (drop n ?out)) \<le> length ?out" for n
    using length_trim_le [of "drop n ?out"] by simp
  then show ?thesis
    using length_cleaned_text_le [of s]
    by (auto simp: stripCliNoise_unfold intro: order_trans)
qed

lemma length_replace_crlf_le: "length (replace_crlf s) \<le> length s"
  by (induction s rule: replace_crlf.induct) auto

lemma length_replace_crlf_less:
  "includes_str s [0x0D, 0x0A] \<Longrightarrow> length (replace_crlf s) < length s"
proof (induction s rule: replace_crlf.induct)
  case 1
  then show ?case by simp
next
  case (2 c)
  then show ?case by (simp add: startsWith_def)
next
  case (3 c d cs)
  show ?case
  proof (cases "c = 0x0D \<and> d = 0x0A")
    case True
    then show ?thesis using length_replace_crlf_le [of cs] by simp
  next
    case False
    with 3 show ?thesis by (auto simp: startsWith_def)
  qed
qed

text \<open>
  C9. \<^verbatim>\<open>stripCliNoise\<close> is not idempotent on every input: a carriage return before a
  carriage return and line feed survives the first pass next to a line feed, and the second
  pass removes it. Applying \<^verbatim>\<open>stripCliNoise\<close> to its own output gives that output back
  exactly when the output contains no carriage return followed by a line feed.
\<close>

theorem stripCliNoise_idempotent_iff:
  "stripCliNoise (stripCliNoise s) = stripCliNoise s \<longleftrightarrow>
     \<not> includes_str (stripCliNoise s) [0x0D, 0x0A]"
proof
  assume "\<not> includes_str (stripCliNoise s) [0x0D, 0x0A]"
  then show "stripCliNoise (stripCliNoise s) = stripCliNoise s" by (rule stripCliNoise_again)
next
  assume fixed: "stripCliNoise (stripCliNoise s) = stripCliNoise s"
  show "\<not> includes_str (stripCliNoise s) [0x0D, 0x0A]"
  proof
    assume "includes_str (stripCliNoise s) [0x0D, 0x0A]"
    then have "length (replace_crlf (stripCliNoise s)) < length (stripCliNoise s)"
      by (rule length_replace_crlf_less)
    moreover have "length (stripCliNoise (stripCliNoise s)) \<le> length (replace_crlf (stripCliNoise s))"
      by (rule length_stripCliNoise_le)
    ultimately show False using fixed by simp
  qed
qed

text \<open>
  The input \<^verbatim>\<open>"a\r\r\nb"\<close>: the first pass gives \<^verbatim>\<open>"a\r\nb"\<close>, the second
  \<^verbatim>\<open>"a\nb"\<close>.
\<close>

theorem stripCliNoise_not_idempotent:
  "stripCliNoise (stripCliNoise [0x61, 0x0D, 0x0D, 0x0A, 0x62])
     \<noteq> stripCliNoise [0x61, 0x0D, 0x0D, 0x0A, 0x62]"
  by code_simp

text \<open>The transcript \<^verbatim>\<open>"Company: x\nok\n=="\<close> has an output without carriage returns.\<close>

theorem stripCliNoise_idempotent_iff_witness:
  "\<not> includes_str (stripCliNoise (js ''Company: x\<newline>ok\<newline>=='')) [0x0D, 0x0A] \<and>
   stripCliNoise (stripCliNoise (js ''Company: x\<newline>ok\<newline>==''))
     = stripCliNoise (js ''Company: x\<newline>ok\<newline>=='')"
proof -
  let ?raw = "js ''Company: x\<newline>ok\<newline>==''"
  have h: "\<not> includes_str (stripCliNoise ?raw) [0x0D, 0x0A]" by code_simp
  from h iffD2 [OF stripCliNoise_idempotent_iff [of ?raw] h] show ?thesis by (rule conjI)
qed

section \<open>Properties of the Dedup Ledger\<close>

lemma event_of_record_entry_kept:
  "event_of led key = Some ev \<Longrightarrow> event_of (record_entry led key' mid ev') key = Some ev"
  by (auto simp: event_of_def lookup_def record_entry_def split: option.splits)

lemma event_of_record_calls_kept:
  "event_of led key = Some ev \<Longrightarrow> event_of (record_calls led calls) key = Some ev"
proof (induction calls arbitrary: led)
  case Nil
  then show ?case by simp
next
  case (Cons call calls)
  obtain key' mid ev' where call: "call = (key', mid, ev')" by (cases call)
  from Cons.prems have "event_of (record_entry led key' mid ev') key = Some ev"
    by (rule event_of_record_entry_kept)
  then have "event_of (record_calls (record_entry led key' mid ev') calls) key = Some ev"
    by (rule Cons.IH)
  with call show ?case by simp
qed

lemma record_calls_append:
  "record_calls led (xs @ ys) = record_calls (record_calls led xs) ys"
  by (induction xs arbitrary: led) auto

lemma event_of_prefix_le:
  assumes "i \<le> j" "event_of (record_calls led (take i calls)) key = Some ev"
  shows "event_of (record_calls led (take j calls)) key = Some ev"
proof -
  from assms(1) have "take j calls = take i calls @ take (j - i) (drop i calls)"
    by (metis le_add_diff_inverse take_add)
  then have "record_calls led (take j calls)
      = record_calls (record_calls led (take i calls)) (take (j - i) (drop i calls))"
    by (simp add: record_calls_append)
  with assms(2) show ?thesis by (simp add: event_of_record_calls_kept)
qed

lemma lookup_record_entry_same: "lookup (record_entry led key mid ev) key \<noteq> None"
  by (simp add: lookup_def record_entry_def split: option.splits)

lemma event_of_record_entry_new:
  "lookup led key = None \<Longrightarrow> event_of (record_entry led key mid ev) key = ev"
  by (simp add: event_of_def lookup_def record_entry_def)

lemma fst_sync_attempts_Cons:
  "fst (sync_attempts led ((key, mid, answer) # rest))
     = (case fst (sync_attempt led (key, mid, answer)) of None \<Rightarrow> [] | Some ev \<Rightarrow> [(key, ev)])
       @ fst (sync_attempts (snd (sync_attempt led (key, mid, answer))) rest)"
  by (simp split: prod.splits)

lemma snd_sync_attempts_Cons:
  "snd (sync_attempts led (att # rest)) = snd (sync_attempts (snd (sync_attempt led att)) rest)"
  by (cases att) (simp split: prod.splits)

lemma sync_attempt_present:
  assumes "lookup led key \<noteq> None"
  shows "lookup (snd (sync_attempt led (key', mid, answer))) key \<noteq> None"
    and "key' = key \<Longrightarrow> fst (sync_attempt led (key', mid, answer)) = None"
  using assms by (auto simp: lookup_def record_entry_def split: option.splits)

lemma sync_attempt_event_kept:
  "event_of led key = Some ev \<Longrightarrow> event_of (snd (sync_attempt led att)) key = Some ev"
  by (cases att) (auto simp: event_of_record_entry_kept split: option.splits)

lemma sync_attempts_event_kept:
  "event_of led key = Some ev \<Longrightarrow> event_of (snd (sync_attempts led atts)) key = Some ev"
proof (induction atts arbitrary: led)
  case Nil
  then show ?case by simp
next
  case (Cons att atts)
  from Cons.prems have "event_of (snd (sync_attempt led att)) key = Some ev"
    by (rule sync_attempt_event_kept)
  then have "event_of (snd (sync_attempts (snd (sync_attempt led att)) atts)) key = Some ev"
    by (rule Cons.IH)
  then show ?case by (simp only: snd_sync_attempts_Cons)
qed

lemma created_for_append:
  "created_for key (xs @ ys) = created_for key xs @ created_for key ys"
  by (simp add: created_for_def)

lemma sync_attempts_present:
  "lookup led key \<noteq> None \<Longrightarrow> created_for key (fst (sync_attempts led atts)) = []"
proof (induction atts arbitrary: led)
  case Nil
  show ?case by (simp add: created_for_def)
next
  case (Cons att atts)
  obtain key' mid answer where att: "att = (key', mid, answer)" by (cases att)
  let ?step = "sync_attempt led (key', mid, answer)"
  from Cons.prems have "lookup (snd ?step) key \<noteq> None" by (rule sync_attempt_present(1))
  then have rest: "created_for key (fst (sync_attempts (snd ?step) atts)) = []" by (rule Cons.IH)
  have "created_for key (case fst ?step of None \<Rightarrow> [] | Some ev \<Rightarrow> [(key', ev)]) = []"
  proof (cases "key' = key")
    case True
    with Cons.prems have "fst ?step = None" by (intro sync_attempt_present(2)) auto
    then show ?thesis by (simp add: created_for_def)
  next
    case False
    then show ?thesis by (simp add: created_for_def split: option.splits)
  qed
  with rest att show ?case
    by (simp only: fst_sync_attempts_Cons created_for_append) simp
qed

lemma sync_attempts_created:
  "length (created_for key (fst (sync_attempts led atts))) \<le> 1 \<and>
   (\<forall>ev\<in>set (created_for key (fst (sync_attempts led atts))).
      event_of (snd (sync_attempts led atts)) key = Some ev)"
proof (induction atts arbitrary: led)
  case Nil
  show ?case by (simp add: created_for_def)
next
  case (Cons att atts)
  obtain key' mid answer where att: "att = (key', mid, answer)" by (cases att)
  let ?step = "sync_attempt led (key', mid, answer)"
  let ?here = "created_for key (case fst ?step of None \<Rightarrow> [] | Some ev \<Rightarrow> [(key', ev)])"
  let ?rest = "created_for key (fst (sync_attempts (snd ?step) atts))"
  have all: "created_for key (fst (sync_attempts led (att # atts))) = ?here @ ?rest"
    unfolding att by (simp only: fst_sync_attempts_Cons created_for_append)
  have last: "snd (sync_attempts led (att # atts)) = snd (sync_attempts (snd ?step) atts)"
    unfolding att by (simp only: snd_sync_attempts_Cons)
  show ?case
  proof (cases "key' = key \<and> fst ?step \<noteq> None")
    case True
    then obtain ev where ev: "fst ?step = Some ev" and k: "key' = key" by auto
    from ev have absent: "lookup led key' = None" and step: "snd ?step = record_entry led key' mid (Some ev)"
      by (auto split: option.splits)
    from absent k have here: "event_of (snd ?step) key = Some ev"
      unfolding step by (simp add: event_of_record_entry_new)
    have "lookup (snd ?step) key \<noteq> None"
      unfolding step using k by (simp add: lookup_record_entry_same)
    then have none: "?rest = []" by (rule sync_attempts_present)
    from here have "event_of (snd (sync_attempts (snd ?step) atts)) key = Some ev"
      by (rule sync_attempts_event_kept)
    with ev k none show ?thesis
      unfolding all last by (simp add: created_for_def)
  next
    case False
    then have "?here = []" by (auto simp: created_for_def split: option.splits)
    with Cons.IH [of "snd ?step"] show ?thesis unfolding all last by simp
  qed
qed

text \<open>
  C1. At most one event id is ever associated with a dedup key by the ledger: an event id
  that is set for a key stays the event id of the key through every later sequence of
  \<open>record\<close> calls, so that two states of the same lifetime never associate different
  event ids with one key. The lookup-then-record sequence of the planner therefore
  creates at most one event for a key over the lifetime of the ledger, whatever the
  ledger it starts from and whatever the sink answers, and the event it creates is the
  event of the key ever after.
\<close>

theorem ledger_event_identity:
  "(event_of led key = Some ev \<longrightarrow> event_of (record_calls led calls) key = Some ev) \<and>
   (event_of (record_calls led (take i calls)) key = Some ev1 \<and>
    event_of (record_calls led (take j calls)) key = Some ev2 \<longrightarrow> ev1 = ev2) \<and>
   length (created_for key (fst (sync_attempts led atts))) \<le> 1 \<and>
   (\<forall>ev'\<in>set (created_for key (fst (sync_attempts led atts))).
      event_of (snd (sync_attempts led atts)) key = Some ev')"
proof (intro conjI impI)
  assume "event_of led key = Some ev"
  then show "event_of (record_calls led calls) key = Some ev"
    by (rule event_of_record_calls_kept)
next
  assume h: "event_of (record_calls led (take i calls)) key = Some ev1 \<and>
    event_of (record_calls led (take j calls)) key = Some ev2"
  show "ev1 = ev2"
  proof (cases "i \<le> j")
    case True
    with h have "event_of (record_calls led (take j calls)) key = Some ev1"
      by (intro event_of_prefix_le [of i j]) auto
    with h show ?thesis by simp
  next
    case False
    then have "j \<le> i" by simp
    with h have "event_of (record_calls led (take i calls)) key = Some ev2"
      by (intro event_of_prefix_le [of j i]) auto
    with h show ?thesis by simp
  qed
next
  show "length (created_for key (fst (sync_attempts led atts))) \<le> 1"
    using sync_attempts_created [of key led atts] by blast
next
  show "\<forall>ev'\<in>set (created_for key (fst (sync_attempts led atts))).
      event_of (snd (sync_attempts led atts)) key = Some ev'"
    using sync_attempts_created [of key led atts] by blast
qed

text \<open>
  An empty ledger and three attempts for one key, the first with a sink that fails: the
  second attempt creates the event, the third finds the entry, and a later \<open>record\<close>
  with another event id leaves the event of the key in place.
\<close>

theorem ledger_event_identity_witness:
  "created_for ''acme:Technical:19000''
     (fst (sync_attempts (\<lambda>key. None)
        [(''acme:Technical:19000'', ''m2'', None),
         (''acme:Technical:19000'', ''m2'', Some ''event 1''),
         (''acme:Technical:19000'', ''m3'', Some ''event 2'')])) = [''event 1''] \<and>
   event_of
     (snd (sync_attempts (\<lambda>key. None)
        [(''acme:Technical:19000'', ''m2'', None),
         (''acme:Technical:19000'', ''m2'', Some ''event 1''),
         (''acme:Technical:19000'', ''m3'', Some ''event 2'')]))
     ''acme:Technical:19000'' = Some ''event 1'' \<and>
   event_of
     (record_calls
        (snd (sync_attempts (\<lambda>key. None)
           [(''acme:Technical:19000'', ''m2'', None),
            (''acme:Technical:19000'', ''m2'', Some ''event 1''),
            (''acme:Technical:19000'', ''m3'', Some ''event 2'')]))
        [(''acme:Technical:19000'', ''m4'', Some ''event 3'')])
     ''acme:Technical:19000'' = Some ''event 1''"
proof -
  let ?key = "''acme:Technical:19000''"
  let ?atts = "[(?key, ''m2'', None), (?key, ''m2'', Some ''event 1''),
                (?key, ''m3'', Some ''event 2'')]"
  let ?led = "snd (sync_attempts (\<lambda>key. None) ?atts)"
  have created: "created_for ?key (fst (sync_attempts (\<lambda>key. None) ?atts)) = [''event 1'']"
    by code_simp
  then have "''event 1'' \<in> set (created_for ?key (fst (sync_attempts (\<lambda>key. None) ?atts)))"
    by simp
  with ledger_event_identity [of "\<lambda>key. None" ?key _ _ _ _ _ _ ?atts]
  have ev: "event_of ?led ?key = Some ''event 1''" by blast
  with ledger_event_identity [of ?led ?key "''event 1''" "[(?key, ''m4'', Some ''event 3'')]"]
  have "event_of (record_calls ?led [(?key, ''m4'', Some ''event 3'')]) ?key = Some ''event 1''"
    by blast
  with created ev show ?thesis by blast
qed

section \<open>Properties of the Time Extractor\<close>

lemma first_future_None:
  "first_future res now phrases = None \<longleftrightarrow> (\<forall>ph\<in>set phrases. \<not> resolves_to_future res now ph)"
  by (induction phrases) (auto simp: resolves_to_future_def split: option.splits)

lemma first_future_Some:
  "first_future res now phrases = Some x \<Longrightarrow>
     now < start_instant x \<and> res (raw_phrase x) = Some (start_instant x, timezone x) \<and>
     (\<exists>before after. phrases = before @ raw_phrase x # after \<and>
        (\<forall>ph\<in>set before. \<not> resolves_to_future res now ph))"
proof (induction phrases)
  case Nil
  then show ?case by simp
next
  case (Cons ph phrases)
  show ?case
  proof (cases "resolves_to_future res now ph")
    case True
    then obtain tm zone where r: "res ph = Some (tm, zone)" and f: "now < tm"
      by (auto simp: resolves_to_future_def split: option.splits)
    with Cons.prems have x: "x = \<lparr>start_instant = tm, timezone = zone, raw_phrase = ph\<rparr>" by simp
    have "ph # phrases = [] @ raw_phrase x # phrases \<and> (\<forall>q\<in>set []. \<not> resolves_to_future res now q)"
      using x by simp
    then have "\<exists>before after. ph # phrases = before @ raw_phrase x # after \<and>
        (\<forall>q\<in>set before. \<not> resolves_to_future res now q)" by blast
    with x r f show ?thesis by simp
  next
    case False
    with Cons.prems have "first_future res now phrases = Some x"
      by (auto simp: resolves_to_future_def split: option.splits if_splits)
    from Cons.IH [OF this] obtain before after where
      a: "now < start_instant x" "res (raw_phrase x) = Some (start_instant x, timezone x)"
      and b: "phrases = before @ raw_phrase x # after"
      and c: "\<forall>q\<in>set before. \<not> resolves_to_future res now q" by blast
    from b c False have "ph # phrases = (ph # before) @ raw_phrase x # after \<and>
        (\<forall>q\<in>set (ph # before). \<not> resolves_to_future res now q)" by simp
    then have "\<exists>before after. ph # phrases = before @ raw_phrase x # after \<and>
        (\<forall>q\<in>set before. \<not> resolves_to_future res now q)" by blast
    with a show ?thesis by simp
  qed
qed

text \<open>
  C5. The Time Extractor never returns a past instant. It returns none exactly when no
  candidate phrase resolves to an instant after the received timestamp (in particular when
  every candidate time lies in the past); when it returns a time, that time is after the
  received timestamp and comes from the first candidate phrase that resolves to the
  future.
\<close>

theorem extract_time_first_future:
  "(extract_time tp zone msg = None \<longleftrightarrow>
      (\<forall>ph\<in>set (scan_phrases tp msg).
         \<not> resolves_to_future (resolve_phrase tp (msg_received msg) zone) (msg_received msg) ph)) \<and>
   (\<forall>x. extract_time tp zone msg = Some x \<longrightarrow>
      msg_received msg < start_instant x \<and>
      resolve_phrase tp (msg_received msg) zone (raw_phrase x) = Some (start_instant x, timezone x) \<and>
      (\<exists>before after. scan_phrases tp msg = before @ raw_phrase x # after \<and>
         (\<forall>ph\<in>set before.
            \<not> resolves_to_future (resolve_phrase tp (msg_received msg) zone) (msg_received msg) ph)))"
proof (intro conjI allI impI)
  show "extract_time tp zone msg = None \<longleftrightarrow>
      (\<forall>ph\<in>set (scan_phrases tp msg).
         \<not> resolves_to_future (resolve_phrase tp (msg_received msg) zone) (msg_received msg) ph)"
    unfolding extract_time_def by (rule first_future_None)
next
  fix x
  assume "extract_time tp zone msg = Some x"
  then have found: "first_future (resolve_phrase tp (msg_received msg) zone) (msg_received msg)
       (scan_phrases tp msg) = Some x" by (simp add: extract_time_def)
  from first_future_Some [OF found]
  show "msg_received msg < start_instant x"
    and "resolve_phrase tp (msg_received msg) zone (raw_phrase x) = Some (start_instant x, timezone x)"
    and "\<exists>before after. scan_phrases tp msg = before @ raw_phrase x # after \<and>
         (\<forall>ph\<in>set before.
            \<not> resolves_to_future (resolve_phrase tp (msg_received msg) zone) (msg_received msg) ph)"
    by blast+
qed

text \<open>
  The invitation, received at 2000, mentions \<^verbatim>\<open>yesterday\<close> and \<^verbatim>\<open>tomorrow\<close>: the
  extracted time is that of \<^verbatim>\<open>tomorrow\<close>, 88400. The note of thanks mentions
  \<^verbatim>\<open>yesterday\<close> only and has no time.
\<close>

theorem extract_time_first_future_witness:
  "scan_phrases example_parser invitation = [''yesterday'', ''tomorrow''] \<and>
   extract_time example_parser ''UTC'' invitation
     = Some \<lparr>start_instant = 88400, timezone = ''UTC'', raw_phrase = ''tomorrow''\<rparr> \<and>
   msg_received invitation < 88400 \<and>
   extract_time example_parser ''UTC'' thanks = None \<and>
   ''yesterday'' \<in> set (scan_phrases example_parser thanks) \<and>
   \<not> resolves_to_future (resolve_phrase example_parser (msg_received thanks) ''UTC'')
        (msg_received thanks) ''yesterday''"
proof -
  let ?x = "\<lparr>start_instant = 88400, timezone = ''UTC'', raw_phrase = ''tomorrow''\<rparr>"
  have cands: "scan_phrases example_parser invitation = [''yesterday'', ''tomorrow'']"
    by code_simp
  have found: "extract_time example_parser ''UTC'' invitation = Some ?x" by code_simp
  have none: "extract_time example_parser ''UTC'' thanks = None" by code_simp
  have cand: "''yesterday'' \<in> set (scan_phrases example_parser thanks)" by code_simp
  from extract_time_first_future [of example_parser "''UTC''" invitation] found
  have "msg_received invitation < start_instant ?x" by blast
  then have future: "msg_received invitation < 88400" by simp
  from extract_time_first_future [of example_parser "''UTC''" thanks] none cand
  have "\<not> resolves_to_future (resolve_phrase example_parser (msg_received thanks) ''UTC'')
        (msg_received thanks) ''yesterday''" by blast
  with cands found future none cand show ?thesis by blast
qed

end
